theory Spec2Isabelle
  imports Main "HOL-Library.Sublist"
begin

section \<open>The three comment patterns of pkg/helm\<close>

text \<open>
  The package compiles three regular expressions once, with \<open>regexp.MustCompile\<close>:
  \<^verbatim>\<open>^\s*# (.*) -- (.*)$\<close>, \<^verbatim>\<open>^\s*# (.*)$\<close> and \<^verbatim>\<open>^\s*# @default -- (.*)$\<close>.
  They are modelled the way Go's regexp package runs them: a flat program of
  instructions with capture markers, executed by a backtracking search that prefers
  the longer repetition first (leftmost-first matching, every star greedy).
  A string is a list of bytes; \<open>.\<close> is any character but the line feed and
  \<open>\s\<close> is the class \<open>[\t\n\f\r ]\<close>.
\<close>

datatype cclass = Space | AnyCharNotNL

fun in_class :: "cclass \<Rightarrow> char \<Rightarrow> bool" where
  "in_class Space c = (c = CHR 0x09 \<or> c = CHR 0x0A \<or> c = CHR 0x0C \<or> c = CHR 0x0D \<or> c = CHR '' '')"
| "in_class AnyCharNotNL c = (c \<noteq> CHR 0x0A)"

datatype inst =
    BeginText
  | EndText
  | Lit char
  | StarCls cclass
  | Capture nat

text \<open>
  \<open>exec prog pos rest cap\<close> runs the program at offset \<open>pos\<close> of the input, of which
  \<open>rest\<close> is still unread; \<open>cap\<close> holds the offsets recorded by the capture markers
  (slot \<open>2 * i\<close> the start and slot \<open>2 * i + 1\<close> the end of group \<open>i\<close>). The result is
  the capture array of the first match in priority order, or \<open>None\<close>.
\<close>

fun exec :: "inst list \<Rightarrow> nat \<Rightarrow> string \<Rightarrow> nat list \<Rightarrow> nat list option" where
  "exec [] pos rest cap = Some cap"
| "exec (BeginText # prog) pos rest cap =
     (if pos = 0 then exec prog pos rest cap else None)"
| "exec (EndText # prog) pos rest cap =
     (if rest = [] then exec prog pos rest cap else None)"
| "exec (Lit c # prog) pos [] cap = None"
| "exec (Lit c # prog) pos (x # xs) cap =
     (if x = c then exec prog (Suc pos) xs cap else None)"
| "exec (StarCls k # prog) pos [] cap = exec prog pos [] cap"
| "exec (StarCls k # prog) pos (x # xs) cap =
     (if in_class k x
      then (case exec (StarCls k # prog) (Suc pos) xs cap of
              Some r \<Rightarrow> Some r
            | None \<Rightarrow> exec prog pos (x # xs) cap)
      else exec prog pos (x # xs) cap)"
| "exec (Capture n # prog) pos rest cap = exec prog pos rest (cap[n := pos])"

text \<open>The unanchored search: the leftmost offset at which the program matches.\<close>

fun search :: "inst list \<Rightarrow> nat \<Rightarrow> string \<Rightarrow> nat list \<Rightarrow> nat list option" where
  "search prog pos [] cap = exec prog pos [] cap"
| "search prog pos (x # xs) cap =
     (case exec prog pos (x # xs) cap of
        Some r \<Rightarrow> Some r
      | None \<Rightarrow> search prog (Suc pos) xs cap)"

record regexp =
  prog :: "inst list"
  numSubexp :: nat

definition lits :: "string \<Rightarrow> inst list" where
  "lits s = map Lit s"

definition substr :: "string \<Rightarrow> nat \<Rightarrow> nat \<Rightarrow> string" where
  "substr s b e = take (e - b) (drop b s)"

text \<open>
  \<open>FindStringSubmatch\<close> returns the text of the leftmost match followed by the text
  of each group, and \<open>nil\<close> (the empty slice) when there is no match.
\<close>

definition FindStringSubmatch :: "regexp \<Rightarrow> string \<Rightarrow> string list" where
  "FindStringSubmatch re s =
     (case search (prog re) 0 s (replicate (2 * (numSubexp re + 1)) 0) of
        None \<Rightarrow> []
      | Some cap \<Rightarrow> map (\<lambda>i. substr s (cap ! (2 * i)) (cap ! (2 * i + 1))) [0 ..< numSubexp re + 1])"

definition valuesDescriptionRegex :: regexp where
  "valuesDescriptionRegex =
     \<lparr> prog = [Capture 0, BeginText, StarCls Space] @ lits ''# ''
               @ [Capture 2, StarCls AnyCharNotNL, Capture 3] @ lits '' -- ''
               @ [Capture 4, StarCls AnyCharNotNL, Capture 5, EndText, Capture 1],
       numSubexp = 2 \<rparr>"

definition commentContinuationRegex :: regexp where
  "commentContinuationRegex =
     \<lparr> prog = [Capture 0, BeginText, StarCls Space] @ lits ''# ''
               @ [Capture 2, StarCls AnyCharNotNL, Capture 3, EndText, Capture 1],
       numSubexp = 1 \<rparr>"

definition defaultValueRegex :: regexp where
  "defaultValueRegex =
     \<lparr> prog = [Capture 0, BeginText, StarCls Space] @ lits ''# @default -- ''
               @ [Capture 2, StarCls AnyCharNotNL, Capture 3, EndText, Capture 1],
       numSubexp = 1 \<rparr>"

section \<open>The comment scanner of parseChartValuesFileComments\<close>

record ChartValueDescription =
  Description :: string
  Default :: string

text \<open>The local variables of the function that live across loop iterations.\<close>

record scan_state =
  description :: string
  key :: string
  keyToDescriptions :: "string \<rightharpoonup> ChartValueDescription"
  foundValuesComment :: bool

definition init_state :: scan_state where
  "init_state = \<lparr> description = [], key = [], keyToDescriptions = Map.empty,
                   foundValuesComment = False \<rparr>"

text \<open>One iteration of the \<open>for scanner.Scan()\<close> loop, on the line \<open>scanner.Text()\<close>.\<close>

definition loop_body :: "scan_state \<Rightarrow> string \<Rightarrow> scan_state" where
  "loop_body s currentLine =
     (if \<not> foundValuesComment s then
        (let match = FindStringSubmatch valuesDescriptionRegex currentLine in
         if length match < 3 then s
         else s\<lparr> foundValuesComment := True, key := match ! 1, description := match ! 2 \<rparr>)
      else
        (let match = FindStringSubmatch defaultValueRegex currentLine in
         if length match > 1 then
           s\<lparr> keyToDescriptions := (keyToDescriptions s)
                  (key s \<mapsto> \<lparr> Description = description s, Default = match ! 1 \<rparr>),
              foundValuesComment := False \<rparr>
         else
           (let match = FindStringSubmatch commentContinuationRegex currentLine in
            if length match > 1 then
              s\<lparr> description := description s @ '' '' @ match ! 1 \<rparr>
            else
              s\<lparr> keyToDescriptions := (keyToDescriptions s)
                     (key s \<mapsto> \<lparr> Description = description s, Default = [] \<rparr>),
                 foundValuesComment := False \<rparr>)))"

definition scan :: "scan_state \<Rightarrow> string list \<Rightarrow> scan_state" where
  "scan s ls = foldl loop_body s ls"

text \<open>The map the function returns once the scanner has delivered the lines \<open>ls\<close>.\<close>

definition parseLines :: "string list \<Rightarrow> string \<rightharpoonup> ChartValueDescription" where
  "parseLines ls = keyToDescriptions (scan init_state ls)"

text \<open>
  The two tests the loop makes on a line while a key is pending. A line continues the
  pending description when the default pattern fails on it and the continuation
  pattern matches it; a line starts a description when the first pattern yields its
  three submatches.
\<close>

definition starts_description :: "string \<Rightarrow> bool" where
  "starts_description l = (\<not> length (FindStringSubmatch valuesDescriptionRegex l) < 3)"

definition continuation_line :: "string \<Rightarrow> bool" where
  "continuation_line l =
     (\<not> length (FindStringSubmatch defaultValueRegex l) > 1
      \<and> length (FindStringSubmatch commentContinuationRegex l) > 1)"

text \<open>
  The \<open>Default\<close> field of the record a closing line writes: the group of the default
  pattern when it matches, and the zero value of a Go string otherwise.
\<close>

definition default_of :: "string \<Rightarrow> string" where
  "default_of l = (let match = FindStringSubmatch defaultValueRegex l in
                   if length match > 1 then match ! 1 else [])"

text \<open>
  The assignment \<open>keyToDescriptions[key] = ...\<close> that one iteration performs, if any,
  and the sequence of these assignments over a run of the loop.
\<close>

definition store_of :: "scan_state \<Rightarrow> string \<Rightarrow> (string \<times> ChartValueDescription) option" where
  "store_of s currentLine =
     (if \<not> foundValuesComment s then None
      else
        (let match = FindStringSubmatch defaultValueRegex currentLine in
         if length match > 1 then
           Some (key s, \<lparr> Description = description s, Default = match ! 1 \<rparr>)
         else
           (let match = FindStringSubmatch commentContinuationRegex currentLine in
            if length match > 1 then None
            else Some (key s, \<lparr> Description = description s, Default = [] \<rparr>))))"

fun stores :: "scan_state \<Rightarrow> string list \<Rightarrow> (string \<times> ChartValueDescription) list" where
  "stores s [] = []"
| "stores s (l # ls) =
     (case store_of s l of None \<Rightarrow> [] | Some kr \<Rightarrow> [kr]) @ stores (loop_body s l) ls"

section \<open>The file behind the scanner\<close>

text \<open>
  \<open>os.Open\<close> either fails or yields a file. What the function sees of an opened file
  is what \<open>bufio.Scanner\<close> delivers: the lines for which \<open>Scan\<close> returned true, and the
  error that stopped the scan (\<open>None\<close> at a clean end of file). \<open>Scan\<close> returns false
  in both cases; the error is only visible through \<open>scanner.Err()\<close>.
\<close>

datatype io_error = ErrNotExist | ErrPermission | ErrTooLong | ErrUnexpectedEOF

record values_file =
  scanned :: "string list"
  scanErr :: "io_error option"

definition isErrorInReadingNecessaryFile :: "io_error option \<Rightarrow> bool" where
  "isErrorInReadingNecessaryFile loadError =
     (case loadError of
        Some e \<Rightarrow> (if e = ErrNotExist then True else True)
      | None \<Rightarrow> False)"

text \<open>
  The function itself, on the outcome of \<open>os.Open\<close>. It returns the map and the
  error; the loop ends when \<open>Scan\<close> returns false and \<open>scanner.Err()\<close> is not
  consulted.
\<close>

definition parseChartValuesFileComments ::
    "io_error + values_file \<Rightarrow> (string \<rightharpoonup> ChartValueDescription) \<times> io_error option" where
  "parseChartValuesFileComments opened =
     (let err = (case opened of Inl e \<Rightarrow> Some e | Inr f \<Rightarrow> None) in
      if isErrorInReadingNecessaryFile err then (Map.empty, err)
      else (parseLines (case opened of Inl e \<Rightarrow> [] | Inr f \<Rightarrow> scanned f), None))"

section \<open>What the three patterns match\<close>

lemma exec_lits:
  "exec (lits s @ p) pos r cap =
     (if prefix s r then exec p (pos + length s) (drop (length s) r) cap else None)"
proof (induction s arbitrary: pos r)
  case Nil
  show ?case by (simp add: lits_def)
next
  case (Cons c s)
  show ?case
  proof (cases r)
    case Nil
    then show ?thesis by (simp add: lits_def)
  next
    case (Cons x xs)
    then show ?thesis using Cons.IH [of "Suc pos" xs] by (simp add: lits_def)
  qed
qed

lemma exec_dot_star_end:
  "exec [StarCls AnyCharNotNL, Capture a, EndText, Capture b] pos r cap =
     (if CHR 0x0A \<in> set r then None
      else Some (cap[a := pos + length r, b := pos + length r]))"
proof (induction r arbitrary: pos)
  case Nil
  show ?case by simp
next
  case (Cons x xs)
  show ?case using Cons.IH [of "Suc pos"] by simp
qed

lemma search_anchored_later:
  "search (Capture n # BeginText # p) (Suc pos) r cap = None"
  by (induction r arbitrary: pos) simp_all

lemma search_anchored:
  "search (Capture n # BeginText # p) 0 r cap = exec p 0 r (cap[n := 0])"
  by (cases r) (simp_all add: search_anchored_later split: option.splits)

lemma space_not_hash: "in_class Space x \<Longrightarrow> x \<noteq> CHR ''#''"
  by auto

lemma exec_star_step:
  assumes "in_class k x" and "exec p pos (x # xs) cap = None"
  shows "exec (StarCls k # p) pos (x # xs) cap = exec (StarCls k # p) (Suc pos) xs cap"
  using assms by (cases "exec (StarCls k # p) (Suc pos) xs cap") simp_all

lemma exec_space_star_hash_gen:
  "exec (StarCls Space # Lit CHR ''#'' # p) pos r cap =
     (if prefix ''#'' (dropWhile (in_class Space) r)
      then exec p (Suc (pos + length (takeWhile (in_class Space) r)))
             (tl (dropWhile (in_class Space) r)) cap
      else None)"
proof (induction r arbitrary: pos)
  case Nil
  show ?case by simp
next
  case (Cons x xs)
  show ?case
  proof (cases "in_class Space x")
    case True
    then have "x \<noteq> CHR ''#''" by (rule space_not_hash)
    then have "exec (Lit CHR ''#'' # p) pos (x # xs) cap = None" by simp
    then have "exec (StarCls Space # Lit CHR ''#'' # p) pos (x # xs) cap =
          exec (StarCls Space # Lit CHR ''#'' # p) (Suc pos) xs cap"
      using True by (rule exec_star_step [rotated])
    then show ?thesis using True Cons.IH [of "Suc pos"]
      by (simp del: in_class.simps)
  next
    case False
    then show ?thesis by (simp del: in_class.simps)
  qed
qed

lemma exec_head:
  "exec (StarCls Space # lits (CHR ''#'' # s) @ p) pos l cap =
     (if prefix (CHR ''#'' # s) (dropWhile (in_class Space) l)
      then exec p (pos + length (takeWhile (in_class Space) l) + Suc (length s))
             (drop (Suc (length s)) (dropWhile (in_class Space) l)) cap
      else None)"
proof -
  define d where "d = dropWhile (in_class Space) l"
  have "lits (CHR ''#'' # s) @ p = Lit CHR ''#'' # lits s @ p" by (simp add: lits_def)
  then show ?thesis
    unfolding d_def [symmetric]
    by (cases d) (simp_all add: exec_space_star_hash_gen exec_lits d_def [symmetric] del: in_class.simps)
qed

lemma substr_whole: "substr s 0 (length s) = s"
  by (simp add: substr_def)

lemma substr_to_end: "substr (w @ r) (length w + n) (length (w @ r)) = drop n r"
  by (simp add: substr_def)

lemma notNL_iff: "list_all (in_class AnyCharNotNL) t \<longleftrightarrow> CHR 0x0A \<notin> set t"
  by (induction t) auto

lemma FSM_one_group:
  assumes p: "prog re = Capture 0 # BeginText # StarCls Space # lits (CHR ''#'' # s)
               @ [Capture 2, StarCls AnyCharNotNL, Capture 3, EndText, Capture 1]"
    and n: "numSubexp re = 1"
  shows "FindStringSubmatch re l =
     (let r = dropWhile (in_class Space) l in
      if prefix (CHR ''#'' # s) r \<and> list_all (in_class AnyCharNotNL) (drop (Suc (length s)) r)
      then [l, drop (Suc (length s)) r] else [])"
proof -
  define w where "w = takeWhile (in_class Space) l"
  define r where "r = dropWhile (in_class Space) l"
  have l: "l = w @ r" by (simp add: w_def r_def)
  have rep: "replicate (2 * (numSubexp re + 1)) 0 = [0::nat, 0, 0, 0]"
    by (simp add: n numeral_eq_Suc)
  have upt: "[0 ..< numSubexp re + 1] = [0, 1]"
    by (simp add: n upt_rec)
  show ?thesis
  proof (cases "prefix (CHR ''#'' # s) r")
    case False
    then have "search (prog re) 0 l [0, 0, 0, 0] = None"
      unfolding p
      by (simp add: search_anchored exec_head r_def[symmetric] del: in_class.simps)
    then show ?thesis using False
      unfolding FindStringSubmatch_def rep
      by (simp add: r_def [symmetric] Let_def del: in_class.simps)
  next
    case True
    define c where "c = drop (Suc (length s)) r"
    have "Suc (length s) \<le> length r" using True by (auto simp: prefix_def)
    then have len: "length w + Suc (length s) + length c = length l"
      using l by (simp add: c_def)
    have "search (prog re) 0 l [0, 0, 0, 0] =
          (if list_all (in_class AnyCharNotNL) c
           then Some [0, length l, length w + Suc (length s), length l] else None)"
      unfolding p using True len
      by (simp add: search_anchored exec_head r_def[symmetric] w_def[symmetric] c_def [symmetric]
          exec_dot_star_end notNL_iff del: in_class.simps)
    moreover have "substr l (length w + Suc (length s)) (length l) = c"
      using substr_to_end [of w r "Suc (length s)"] l by (simp add: c_def)
    ultimately show ?thesis using True
      unfolding FindStringSubmatch_def rep upt
      by (simp add: r_def [symmetric] c_def [symmetric]
          Let_def substr_whole del: in_class.simps)
  qed
qed

lemma FSM_continuation:
  "FindStringSubmatch commentContinuationRegex l =
     (let r = dropWhile (in_class Space) l in
      if prefix ''# '' r \<and> list_all (in_class AnyCharNotNL) (drop (length ''# '') r)
      then [l, drop (length ''# '') r] else [])"
  using FSM_one_group [of commentContinuationRegex "'' ''" l]
  by (simp add: commentContinuationRegex_def Let_def del: in_class.simps)

lemma FSM_default:
  "FindStringSubmatch defaultValueRegex l =
     (let r = dropWhile (in_class Space) l in
      if prefix ''# @default -- '' r
         \<and> list_all (in_class AnyCharNotNL) (drop (length ''# @default -- '') r)
      then [l, drop (length ''# @default -- '') r] else [])"
  using FSM_one_group [of defaultValueRegex "'' @default -- ''" l]
  by (simp add: defaultValueRegex_def Let_def del: in_class.simps)

lemma exec_tail:
  "exec (Capture a # lits d @ [Capture b, StarCls AnyCharNotNL, Capture c, EndText, Capture e])
        pos r cap =
     (if prefix d r \<and> list_all (in_class AnyCharNotNL) (drop (length d) r)
      then Some (cap[a := pos, b := pos + length d, c := pos + length r, e := pos + length r])
      else None)"
proof (cases "prefix d r")
  case False
  then show ?thesis by (simp add: exec_lits del: in_class.simps)
next
  case True
  then have "length d + length (drop (length d) r) = length r"
    by (auto simp: prefix_def)
  then have "pos + length d + (length r - length d) = pos + length r" by simp
  then show ?thesis using True
    by (simp add: exec_lits exec_dot_star_end notNL_iff del: in_class.simps)
qed

lemma exec_star_no_delim:
  assumes "\<not> sublist d r"
  shows "exec (StarCls k # Capture a # lits d @ p) pos r cap = None"
  using assms
proof (induction r arbitrary: pos)
  case Nil
  then have "d \<noteq> []" by auto
  then show ?case by (simp add: exec_lits)
next
  case (Cons x xs)
  then have np: "\<not> prefix d (x # xs)" and ns: "\<not> sublist d xs"
    by (simp_all add: sublist_Cons_right)
  have a: "exec (Capture a # lits d @ p) pos (x # xs) cap = None"
    using np by (simp add: exec_lits)
  have b: "exec (StarCls k # Capture a # lits d @ p) (Suc pos) xs cap = None"
    using Cons.IH [OF ns] .
  show ?case using a b by (simp del: in_class.simps exec.simps(8))
qed

lemma exec_star_greedy:
  assumes "list_all (in_class c) k"
    and "exec (StarCls c # p) (pos + length k) r cap = Some res"
  shows "exec (StarCls c # p) pos (k @ r) cap = Some res"
  using assms
proof (induction k arbitrary: pos)
  case Nil
  then show ?case by simp
next
  case (Cons x k)
  then have "exec (StarCls c # p) (Suc pos) (k @ r) cap = Some res" by simp
  then show ?case using Cons.prems(1) by (simp del: in_class.simps)
qed

lemma exec_star_last_delim:
  assumes k: "list_all (in_class AnyCharNotNL) k"
    and d: "d = x # d'" "in_class AnyCharNotNL x"
    and t: "list_all (in_class AnyCharNotNL) t"
    and last: "\<not> sublist d (d' @ t)"
  shows "exec (StarCls AnyCharNotNL # Capture a # lits d
               @ [Capture b, StarCls AnyCharNotNL, Capture c, EndText, Capture e])
           pos (k @ d @ t) cap =
         Some (cap[a := pos + length k, b := pos + length k + length d,
                   c := pos + length (k @ d @ t), e := pos + length (k @ d @ t)])"
proof -
  let ?q = "Capture a # lits d @ [Capture b, StarCls AnyCharNotNL, Capture c, EndText, Capture e]"
  have later: "exec (StarCls AnyCharNotNL # ?q) (Suc (pos + length k)) (d' @ t) cap = None"
    using last by (rule exec_star_no_delim)
  have here: "exec ?q (pos + length k) (d @ t) cap =
        Some (cap[a := pos + length k, b := pos + length k + length d,
                   c := pos + length (k @ d @ t), e := pos + length (k @ d @ t)])"
    using t by (simp add: exec_tail add.assoc del: in_class.simps exec.simps(8))
  have "exec (StarCls AnyCharNotNL # ?q) (pos + length k) (d @ t) cap =
        Some (cap[a := pos + length k, b := pos + length k + length d,
                   c := pos + length (k @ d @ t), e := pos + length (k @ d @ t)])"
    using later here d by (simp del: in_class.simps exec.simps(8))
  then show ?thesis using k by (rule exec_star_greedy [rotated])
qed

lemma dropWhile_space_hash:
  assumes "list_all (in_class Space) ws"
  shows "dropWhile (in_class Space) (ws @ CHR ''#'' # r) = CHR ''#'' # r"
    and "takeWhile (in_class Space) (ws @ CHR ''#'' # r) = ws"
proof -
  have "\<not> in_class Space CHR ''#''" by simp
  then show "dropWhile (in_class Space) (ws @ CHR ''#'' # r) = CHR ''#'' # r"
    using assms by (simp add: dropWhile_append2 list_all_iff del: in_class.simps)
  show "takeWhile (in_class Space) (ws @ CHR ''#'' # r) = ws"
    using assms \<open>\<not> in_class Space CHR ''#''\<close>
    by (induction ws) (simp_all del: in_class.simps)
qed

lemma substr_at:
  "b = length a \<Longrightarrow> e = length a + length m \<Longrightarrow> substr (a @ m @ c) b e = m"
  by (simp add: substr_def)

lemma FSM_values:
  assumes ws: "list_all (in_class Space) ws"
    and k: "list_all (in_class AnyCharNotNL) k"
    and t: "list_all (in_class AnyCharNotNL) t"
    and last: "\<not> sublist '' -- '' (''-- '' @ t)"
  shows "FindStringSubmatch valuesDescriptionRegex (ws @ ''# '' @ k @ '' -- '' @ t)
         = [ws @ ''# '' @ k @ '' -- '' @ t, k, t]"
proof -
  define l where "l = ws @ ''# '' @ k @ '' -- '' @ t"
  have n: "numSubexp valuesDescriptionRegex = 2" by (simp add: valuesDescriptionRegex_def)
  have p: "prog valuesDescriptionRegex = Capture 0 # BeginText # StarCls Space # lits ''# ''
               @ Capture 2 # StarCls AnyCharNotNL # Capture 3 # lits '' -- ''
               @ [Capture 4, StarCls AnyCharNotNL, Capture 5, EndText, Capture 1]"
    by (simp add: valuesDescriptionRegex_def)
  have rep: "replicate (2 * (numSubexp valuesDescriptionRegex + 1)) 0 = [0::nat, 0, 0, 0, 0, 0]"
    by (simp add: n numeral_eq_Suc)
  have upt: "[0 ..< numSubexp valuesDescriptionRegex + 1] = [0, 1, 2]"
    by (simp add: n upt_rec)
  have dw: "dropWhile (in_class Space) l = ''# '' @ k @ '' -- '' @ t"
    and tw: "takeWhile (in_class Space) l = ws"
    using dropWhile_space_hash [OF ws, of "'' '' @ k @ '' -- '' @ t"] by (simp_all add: l_def)
  have star: "exec (StarCls AnyCharNotNL # Capture 3 # lits '' -- ''
               @ [Capture 4, StarCls AnyCharNotNL, Capture 5, EndText, Capture 1])
           (length ws + 2) (k @ '' -- '' @ t) [0, 0, length ws + 2, 0, 0, 0] =
         Some [0, length l, length ws + 2, length ws + 2 + length k,
               length ws + 2 + length k + 4, length l]"
    using exec_star_last_delim [OF k _ _ t, of "'' -- ''" "CHR '' ''" "''-- ''" 3 4 5 1
        "length ws + 2" "[0, 0, length ws + 2, 0, 0, 0]"] last
    by (simp add: l_def numeral_eq_Suc)
  have s: "search (prog valuesDescriptionRegex) 0 l [0, 0, 0, 0, 0, 0] =
         Some [0, length l, length ws + 2, length ws + 2 + length k,
               length ws + 2 + length k + 4, length l]"
    unfolding p using star
    by (simp add: search_anchored exec_head dw tw numeral_eq_Suc del: in_class.simps)
  have g1: "substr l (length ws + 2) (length ws + 2 + length k) = k"
  proof -
    have "substr ((ws @ ''# '') @ k @ '' -- '' @ t) (length ws + 2) (length ws + 2 + length k) = k"
      by (rule substr_at) simp_all
    then show ?thesis by (simp add: l_def)
  qed
  have g2: "substr l (length ws + 2 + length k + 4) (length l) = t"
  proof -
    have "substr ((ws @ ''# '' @ k @ '' -- '') @ t @ []) (length ws + 2 + length k + 4) (length l) = t"
      by (rule substr_at) (simp_all add: l_def)
    then show ?thesis by (simp add: l_def)
  qed
  show ?thesis
    unfolding l_def [symmetric] FindStringSubmatch_def rep upt s
    using g1 g2 by (simp add: substr_whole numeral_eq_Suc)
qed

section \<open>The scanner as a state machine\<close>

lemma FSM_length:
  "FindStringSubmatch re s = [] \<or> length (FindStringSubmatch re s) = numSubexp re + 1"
  by (simp add: FindStringSubmatch_def split: option.splits)

lemma scan_Nil: "scan s [] = s"
  by (simp add: scan_def)

lemma scan_Cons: "scan s (l # ls) = scan (loop_body s l) ls"
  by (simp add: scan_def)

lemma scan_append: "scan s (xs @ ys) = scan (scan s xs) ys"
  by (simp add: scan_def)

lemma scan_snoc: "scan s (xs @ [l]) = loop_body (scan s xs) l"
  by (simp add: scan_def)

lemma loop_body_searching_skip:
  assumes "\<not> foundValuesComment s" and "\<not> starts_description l"
  shows "loop_body s l = s"
  using assms by (simp add: loop_body_def starts_description_def Let_def)

lemma loop_body_searching_start:
  assumes "\<not> foundValuesComment s" and "starts_description l"
  shows "loop_body s l =
         s\<lparr> foundValuesComment := True,
            key := FindStringSubmatch valuesDescriptionRegex l ! 1,
            description := FindStringSubmatch valuesDescriptionRegex l ! 2 \<rparr>"
  using assms by (simp add: loop_body_def starts_description_def Let_def)

lemma loop_body_continue:
  assumes "foundValuesComment s" and "continuation_line l"
  shows "loop_body s l =
         s\<lparr> description := description s @ '' '' @ FindStringSubmatch commentContinuationRegex l ! 1 \<rparr>"
  using assms by (simp add: loop_body_def continuation_line_def Let_def)

lemma loop_body_close:
  assumes "foundValuesComment s" and "\<not> continuation_line l"
  shows "loop_body s l =
         s\<lparr> keyToDescriptions := (keyToDescriptions s)
                (key s \<mapsto> \<lparr> Description = description s, Default = default_of l \<rparr>),
            foundValuesComment := False \<rparr>"
  using assms by (auto simp add: loop_body_def continuation_line_def default_of_def Let_def)

lemma scan_searching_skip:
  assumes "\<not> foundValuesComment s" and "list_all (\<lambda>l. \<not> starts_description l) ls"
  shows "scan s ls = s"
  using assms by (induction ls) (simp_all add: scan_Nil scan_Cons loop_body_searching_skip)

lemma scan_continue:
  assumes "foundValuesComment s" and "list_all continuation_line cs"
  shows "scan s cs =
         s\<lparr> description := description s
              @ concat (map (\<lambda>c. '' '' @ FindStringSubmatch commentContinuationRegex c ! 1) cs) \<rparr>"
  using assms
proof (induction cs arbitrary: s)
  case Nil
  show ?case by (simp add: scan_Nil)
next
  case (Cons c cs)
  have step: "loop_body s c =
      s\<lparr> description := description s @ '' '' @ FindStringSubmatch commentContinuationRegex c ! 1 \<rparr>"
    using Cons.prems by (simp add: loop_body_continue)
  have "foundValuesComment (loop_body s c)" using Cons.prems(1) by (simp add: step)
  then show ?case using Cons.IH [of "loop_body s c"] Cons.prems(2)
    by (simp add: scan_Cons step)
qed

lemma scan_block:
  assumes "\<not> foundValuesComment s" and "starts_description l"
    and "list_all continuation_line cs" and "\<not> continuation_line t"
  shows "scan s (l # cs @ [t]) =
         s\<lparr> foundValuesComment := False,
            key := FindStringSubmatch valuesDescriptionRegex l ! 1,
            description := FindStringSubmatch valuesDescriptionRegex l ! 2
              @ concat (map (\<lambda>c. '' '' @ FindStringSubmatch commentContinuationRegex c ! 1) cs),
            keyToDescriptions := (keyToDescriptions s)
              (FindStringSubmatch valuesDescriptionRegex l ! 1 \<mapsto>
                 \<lparr> Description = FindStringSubmatch valuesDescriptionRegex l ! 2
                      @ concat (map (\<lambda>c. '' '' @ FindStringSubmatch commentContinuationRegex c ! 1) cs),
                   Default = default_of t \<rparr>) \<rparr>"
proof -
  define s1 where "s1 = loop_body s l"
  have s1: "s1 = s\<lparr> foundValuesComment := True,
            key := FindStringSubmatch valuesDescriptionRegex l ! 1,
            description := FindStringSubmatch valuesDescriptionRegex l ! 2 \<rparr>"
    unfolding s1_def using assms(1,2) by (rule loop_body_searching_start)
  define s2 where "s2 = scan s1 cs"
  have f1: "foundValuesComment s1" by (simp add: s1)
  have s2: "s2 = s1\<lparr> description := description s1
              @ concat (map (\<lambda>c. '' '' @ FindStringSubmatch commentContinuationRegex c ! 1) cs) \<rparr>"
    unfolding s2_def using f1 assms(3) by (rule scan_continue)
  have f2: "foundValuesComment s2" by (simp add: s2 s1)
  have "scan s (l # cs @ [t]) = loop_body s2 t"
    by (simp add: scan_Cons scan_snoc s1_def s2_def)
  also have "\<dots> = s2\<lparr> keyToDescriptions := (keyToDescriptions s2)
                (key s2 \<mapsto> \<lparr> Description = description s2, Default = default_of t \<rparr>),
            foundValuesComment := False \<rparr>"
    using f2 assms(4) by (rule loop_body_close)
  finally show ?thesis by (simp add: s2 s1)
qed

section \<open>The shapes of the lines\<close>

text \<open>
  The patterns on lines written as the spec writes them: leading white
  space, the comment marker and the text. The first pattern is greedy, so its key
  runs to the last delimiter of the line. A line that \<open>bufio.ScanLines\<close> delivers
  holds no line feed; the lemmas ask this of the text that a group is to capture.
\<close>

lemma FSM_default_shape:
  assumes "list_all (in_class Space) ws" and "list_all (in_class AnyCharNotNL) t"
  shows "FindStringSubmatch defaultValueRegex (ws @ ''# @default -- '' @ t)
         = [ws @ ''# @default -- '' @ t, t]"
  using assms dropWhile_space_hash(1) [OF assms(1), of "'' @default -- '' @ t"]
  by (simp add: FSM_default del: in_class.simps)

lemma FSM_continuation_shape:
  assumes "list_all (in_class Space) ws" and "list_all (in_class AnyCharNotNL) c"
  shows "FindStringSubmatch commentContinuationRegex (ws @ ''# '' @ c) = [ws @ ''# '' @ c, c]"
  using assms dropWhile_space_hash(1) [OF assms(1), of "'' '' @ c"]
  by (simp add: FSM_continuation del: in_class.simps)

lemma FSM_default_not_shape:
  assumes "list_all (in_class Space) ws" and "\<not> prefix ''@default -- '' c"
  shows "FindStringSubmatch defaultValueRegex (ws @ ''# '' @ c) = []"
  using assms dropWhile_space_hash(1) [OF assms(1), of "'' '' @ c"]
  by (simp add: FSM_default del: in_class.simps)

lemma exec_star_some:
  assumes "list_all (in_class AnyCharNotNL) k" and "list_all (in_class AnyCharNotNL) t"
    and "d = x # d'" and "in_class AnyCharNotNL x"
  shows "exec (StarCls AnyCharNotNL # Capture a # lits d
               @ [Capture b, StarCls AnyCharNotNL, Capture c, EndText, Capture e])
           pos (k @ d @ t) cap \<noteq> None"
  using assms(1)
proof (induction k arbitrary: pos)
  case Nil
  let ?q = "Capture a # lits d @ [Capture b, StarCls AnyCharNotNL, Capture c, EndText, Capture e]"
  have here: "exec ?q pos (d @ t) cap \<noteq> None"
    using assms(2) by (simp add: exec_tail del: in_class.simps exec.simps(8))
  show ?case
  proof (cases "exec (StarCls AnyCharNotNL # ?q) (Suc pos) (d' @ t) cap")
    case None
    then show ?thesis using here assms(3,4) by (simp del: in_class.simps exec.simps(8))
  next
    case (Some r)
    then show ?thesis using assms(3,4) by (simp del: in_class.simps exec.simps(8))
  qed
next
  case (Cons y k)
  have "list_all (in_class AnyCharNotNL) k" using Cons.prems by (simp del: in_class.simps)
  then have "exec (StarCls AnyCharNotNL # Capture a # lits d
               @ [Capture b, StarCls AnyCharNotNL, Capture c, EndText, Capture e])
           (Suc pos) (k @ d @ t) cap \<noteq> None"
    by (rule Cons.IH)
  then obtain r where "exec (StarCls AnyCharNotNL # Capture a # lits d
               @ [Capture b, StarCls AnyCharNotNL, Capture c, EndText, Capture e])
           (Suc pos) (k @ d @ t) cap = Some r"
    by blast
  then show ?case using Cons.prems by (simp del: in_class.simps exec.simps(8))
qed

lemma exec_star_split:
  assumes "exec (StarCls AnyCharNotNL # Capture a # lits d
               @ [Capture b, StarCls AnyCharNotNL, Capture c, EndText, Capture e])
           pos r cap = Some res"
  shows "\<exists>k t. r = k @ d @ t \<and> list_all (in_class AnyCharNotNL) k
               \<and> list_all (in_class AnyCharNotNL) t"
  using assms
proof (induction r arbitrary: pos res)
  case Nil
  then have "prefix d []" by (simp add: exec_tail del: exec.simps(8) split: if_splits)
  then have "[] = [] @ d @ []" by simp
  moreover have "list_all (in_class AnyCharNotNL) []" by simp
  ultimately show ?case by blast
next
  case (Cons x xs)
  let ?q = "Capture a # lits d @ [Capture b, StarCls AnyCharNotNL, Capture c, EndText, Capture e]"
  have tail: "\<exists>k t. x # xs = k @ d @ t \<and> list_all (in_class AnyCharNotNL) k
               \<and> list_all (in_class AnyCharNotNL) t"
    if "exec ?q pos (x # xs) cap = Some res"
  proof -
    from that have p: "prefix d (x # xs)"
      and n: "list_all (in_class AnyCharNotNL) (drop (length d) (x # xs))"
      by (simp_all add: exec_tail del: in_class.simps exec.simps(8) split: if_splits)
    from p have "x # xs = [] @ d @ drop (length d) (x # xs)" by (auto simp: prefix_def)
    moreover have "list_all (in_class AnyCharNotNL) []" by simp
    ultimately show ?thesis using n by blast
  qed
  show ?case
  proof (cases "in_class AnyCharNotNL x")
    case False
    then have "exec ?q pos (x # xs) cap = Some res"
      using Cons.prems by (simp del: in_class.simps exec.simps(8))
    then show ?thesis by (rule tail)
  next
    case True
    show ?thesis
    proof (cases "exec (StarCls AnyCharNotNL # ?q) (Suc pos) xs cap")
      case None
      then have "exec ?q pos (x # xs) cap = Some res"
        using Cons.prems True by (simp del: in_class.simps exec.simps(8))
      then show ?thesis by (rule tail)
    next
      case (Some r')
      then obtain k t where kt: "xs = k @ d @ t" "list_all (in_class AnyCharNotNL) k"
          "list_all (in_class AnyCharNotNL) t"
        using Cons.IH by blast
      have "x # xs = (x # k) @ d @ t" using kt(1) by simp
      moreover have "list_all (in_class AnyCharNotNL) (x # k)"
        using True kt(2) by (simp del: in_class.simps)
      ultimately show ?thesis using kt(3) by blast
    qed
  qed
qed

lemma starts_description_iff_shape:
  "starts_description l \<longleftrightarrow>
     (\<exists>ws k t. l = ws @ ''# '' @ k @ '' -- '' @ t \<and> list_all (in_class Space) ws
        \<and> list_all (in_class AnyCharNotNL) k \<and> list_all (in_class AnyCharNotNL) t)"
proof
  let ?q = "StarCls AnyCharNotNL # Capture 3 # lits '' -- ''
               @ [Capture 4, StarCls AnyCharNotNL, Capture 5, EndText, Capture 1]"
  have p: "prog valuesDescriptionRegex = Capture 0 # BeginText # StarCls Space # lits ''# ''
               @ Capture 2 # ?q"
    by (simp add: valuesDescriptionRegex_def)
  {
    assume "starts_description l"
    then obtain res where
      s: "search (prog valuesDescriptionRegex) 0 l
            (replicate (2 * (numSubexp valuesDescriptionRegex + 1)) 0) = Some res"
      by (auto simp add: starts_description_def FindStringSubmatch_def split: option.splits)
    define w where "w = takeWhile (in_class Space) l"
    define r where "r = dropWhile (in_class Space) l"
    have l: "l = w @ r" by (simp add: w_def r_def)
    have w: "list_all (in_class Space) w"
      unfolding w_def list_all_iff by (metis set_takeWhileD)
    from s have pre: "prefix ''# '' r"
      and ex: "\<exists>pos cap. exec ?q pos (drop 2 r) cap = Some res"
      unfolding p
      by (auto simp add: search_anchored exec_head r_def [symmetric] numeral_2_eq_2
          simp del: in_class.simps exec.simps(7) split: if_splits)
    from ex obtain k t where kt: "drop 2 r = k @ '' -- '' @ t"
        "list_all (in_class AnyCharNotNL) k" "list_all (in_class AnyCharNotNL) t"
      using exec_star_split by blast
    from pre have "r = ''# '' @ drop 2 r" by (auto simp: prefix_def)
    then have "l = w @ ''# '' @ k @ '' -- '' @ t" using l kt(1) by simp
    then show "\<exists>ws k t. l = ws @ ''# '' @ k @ '' -- '' @ t \<and> list_all (in_class Space) ws
        \<and> list_all (in_class AnyCharNotNL) k \<and> list_all (in_class AnyCharNotNL) t"
      using w kt(2,3) by blast
  }
  {
    assume "\<exists>ws k t. l = ws @ ''# '' @ k @ '' -- '' @ t \<and> list_all (in_class Space) ws
        \<and> list_all (in_class AnyCharNotNL) k \<and> list_all (in_class AnyCharNotNL) t"
    then obtain ws k t where l: "l = ws @ ''# '' @ k @ '' -- '' @ t"
      and ws: "list_all (in_class Space) ws"
      and k: "list_all (in_class AnyCharNotNL) k" and t: "list_all (in_class AnyCharNotNL) t"
      by blast
    have dw: "dropWhile (in_class Space) l = ''# '' @ k @ '' -- '' @ t"
      using dropWhile_space_hash(1) [OF ws, of "'' '' @ k @ '' -- '' @ t"] by (simp add: l)
    have "in_class AnyCharNotNL CHR '' ''" by simp
    then have "exec ?q pos (k @ '' -- '' @ t) cap \<noteq> None" for pos cap
      using exec_star_some [OF k t, of "'' -- ''" "CHR '' ''" "''-- ''"] by simp
    then have "search (prog valuesDescriptionRegex) 0 l cap \<noteq> None" for cap
      unfolding p
      by (simp add: search_anchored exec_head dw del: in_class.simps exec.simps(7))
    then have "FindStringSubmatch valuesDescriptionRegex l \<noteq> []"
      by (auto simp add: FindStringSubmatch_def valuesDescriptionRegex_def split: option.splits)
    then show "starts_description l"
      using FSM_length [of valuesDescriptionRegex l]
      by (simp add: starts_description_def valuesDescriptionRegex_def)
  }
qed

lemma continuation_line_iff_shape:
  "continuation_line l \<longleftrightarrow>
     (\<exists>ws c. l = ws @ ''# '' @ c \<and> list_all (in_class Space) ws
        \<and> list_all (in_class AnyCharNotNL) c \<and> \<not> prefix ''@default -- '' c)"
proof
  define w where "w = takeWhile (in_class Space) l"
  define r where "r = dropWhile (in_class Space) l"
  have l: "l = w @ r" by (simp add: w_def r_def)
  have w: "list_all (in_class Space) w"
    unfolding w_def list_all_iff by (metis set_takeWhileD)
  {
    assume c: "continuation_line l"
    then have pre: "prefix ''# '' r" and n: "list_all (in_class AnyCharNotNL) (drop 2 r)"
      by (auto simp add: continuation_line_def FSM_continuation r_def Let_def numeral_2_eq_2
          simp del: in_class.simps split: if_splits)
    from pre have r: "r = ''# '' @ drop 2 r" by (auto simp: prefix_def)
    have "\<not> prefix ''@default -- '' (drop 2 r)"
    proof
      assume "prefix ''@default -- '' (drop 2 r)"
      then obtain t where t: "drop 2 r = ''@default -- '' @ t" by (auto simp: prefix_def)
      then have "r = ''# @default -- '' @ t" using r by simp
      moreover have "list_all (in_class AnyCharNotNL) t" using n t by (simp del: in_class.simps)
      ultimately have "length (FindStringSubmatch defaultValueRegex l) > 1"
        by (simp add: FSM_default r_def [symmetric] Let_def del: in_class.simps)
      then show False using c by (simp add: continuation_line_def)
    qed
    then show "\<exists>ws c. l = ws @ ''# '' @ c \<and> list_all (in_class Space) ws
        \<and> list_all (in_class AnyCharNotNL) c \<and> \<not> prefix ''@default -- '' c"
      using l r w n by metis
  }
  {
    assume "\<exists>ws c. l = ws @ ''# '' @ c \<and> list_all (in_class Space) ws
        \<and> list_all (in_class AnyCharNotNL) c \<and> \<not> prefix ''@default -- '' c"
    then obtain ws c where s: "l = ws @ ''# '' @ c" "list_all (in_class Space) ws"
        "list_all (in_class AnyCharNotNL) c" "\<not> prefix ''@default -- '' c"
      by blast
    have "FindStringSubmatch defaultValueRegex l = []"
      unfolding s(1) using s(2,4) by (rule FSM_default_not_shape)
    moreover have "FindStringSubmatch commentContinuationRegex l = [l, c]"
      unfolding s(1) using s(2,3) by (rule FSM_continuation_shape)
    ultimately show "continuation_line l"
      by (simp add: continuation_line_def)
  }
qed

section \<open>The stores of a run and the returned map\<close>

lemma keyToDescriptions_loop_body:
  "keyToDescriptions (loop_body s l) =
     (case store_of s l of
        None \<Rightarrow> keyToDescriptions s
      | Some kr \<Rightarrow> (keyToDescriptions s)(fst kr \<mapsto> snd kr))"
  by (simp add: loop_body_def store_of_def Let_def)

lemma map_upd_add: "m(k \<mapsto> r) ++ n = m ++ ([k \<mapsto> r] ++ n)"
  by (rule ext) (simp add: map_add_def split: option.splits)

lemma keyToDescriptions_scan:
  "keyToDescriptions (scan s ls) = keyToDescriptions s ++ map_of (rev (stores s ls))"
proof (induction ls arbitrary: s)
  case Nil
  show ?case by (simp add: scan_Nil)
next
  case (Cons l ls)
  have ih: "keyToDescriptions (scan s (l # ls)) =
            keyToDescriptions (loop_body s l) ++ map_of (rev (stores (loop_body s l) ls))"
    by (simp add: scan_Cons Cons.IH)
  show ?case
  proof (cases "store_of s l")
    case None
    then show ?thesis by (simp add: ih keyToDescriptions_loop_body)
  next
    case (Some kr)
    obtain k r where kr: "kr = (k, r)" by (cases kr)
    have a: "keyToDescriptions (loop_body s l) = (keyToDescriptions s)(k \<mapsto> r)"
      by (simp add: keyToDescriptions_loop_body Some kr)
    have b: "map_of (rev (stores s (l # ls))) = [k \<mapsto> r] ++ map_of (rev (stores (loop_body s l) ls))"
      by (simp add: Some kr map_of_append)
    show ?thesis unfolding ih a b by (rule map_upd_add)
  qed
qed

lemma map_of_rev_last:
  "map_of (rev xs) k =
     (case filter (\<lambda>kr. fst kr = k) xs of [] \<Rightarrow> None | krs \<Rightarrow> Some (snd (last krs)))"
proof (induction xs rule: rev_induct)
  case Nil
  show ?case by simp
next
  case (snoc x xs)
  then show ?case by (cases x) (auto split: list.splits)
qed

lemma pending_decomposition:
  assumes "foundValuesComment (scan s0 ls)" and "\<not> foundValuesComment s0"
  shows "\<exists>pre l cs. ls = pre @ l # cs
           \<and> \<not> foundValuesComment (scan s0 pre)
           \<and> starts_description l
           \<and> list_all continuation_line cs
           \<and> key (scan s0 ls) = FindStringSubmatch valuesDescriptionRegex l ! 1
           \<and> description (scan s0 ls) = FindStringSubmatch valuesDescriptionRegex l ! 2
                 @ concat (map (\<lambda>c. '' '' @ FindStringSubmatch commentContinuationRegex c ! 1) cs)
           \<and> keyToDescriptions (scan s0 ls) = keyToDescriptions (scan s0 pre)"
  using assms
proof (induction ls rule: rev_induct)
  case Nil
  then show ?case by (simp add: scan_Nil)
next
  case (snoc x ls)
  show ?case
  proof (cases "foundValuesComment (scan s0 ls)")
    case False
    have sd: "starts_description x"
    proof (rule ccontr)
      assume "\<not> starts_description x"
      then have "loop_body (scan s0 ls) x = scan s0 ls"
        using False by (simp add: loop_body_searching_skip)
      then show False using snoc.prems(1) False by (simp add: scan_snoc)
    qed
    have step: "scan s0 (ls @ [x]) = (scan s0 ls)\<lparr> foundValuesComment := True,
            key := FindStringSubmatch valuesDescriptionRegex x ! 1,
            description := FindStringSubmatch valuesDescriptionRegex x ! 2 \<rparr>"
      using False sd by (simp add: scan_snoc loop_body_searching_start)
    have "ls @ [x] = ls @ x # []" by simp
    moreover have "list_all continuation_line []" by simp
    moreover have "key (scan s0 (ls @ [x])) = FindStringSubmatch valuesDescriptionRegex x ! 1"
      by (simp add: step)
    moreover have "description (scan s0 (ls @ [x])) = FindStringSubmatch valuesDescriptionRegex x ! 2
        @ concat (map (\<lambda>c. '' '' @ FindStringSubmatch commentContinuationRegex c ! 1) [])"
      by (simp add: step)
    moreover have "keyToDescriptions (scan s0 (ls @ [x])) = keyToDescriptions (scan s0 ls)"
      by (simp add: step)
    ultimately show ?thesis using False sd by blast
  next
    case True
    have cl: "continuation_line x"
    proof (rule ccontr)
      assume "\<not> continuation_line x"
      then have "\<not> foundValuesComment (loop_body (scan s0 ls) x)"
        using True by (simp add: loop_body_close)
      then show False using snoc.prems(1) by (simp add: scan_snoc)
    qed
    have step: "scan s0 (ls @ [x]) = (scan s0 ls)\<lparr> description := description (scan s0 ls)
        @ '' '' @ FindStringSubmatch commentContinuationRegex x ! 1 \<rparr>"
      using True cl by (simp add: scan_snoc loop_body_continue)
    obtain pre l cs where ih: "ls = pre @ l # cs" "\<not> foundValuesComment (scan s0 pre)"
        "starts_description l" "list_all continuation_line cs"
        "key (scan s0 ls) = FindStringSubmatch valuesDescriptionRegex l ! 1"
        "description (scan s0 ls) = FindStringSubmatch valuesDescriptionRegex l ! 2
           @ concat (map (\<lambda>c. '' '' @ FindStringSubmatch commentContinuationRegex c ! 1) cs)"
        "keyToDescriptions (scan s0 ls) = keyToDescriptions (scan s0 pre)"
      using snoc.IH [OF True snoc.prems(2)] by blast
    have "ls @ [x] = pre @ l # (cs @ [x])" using ih(1) by simp
    moreover have "list_all continuation_line (cs @ [x])" using ih(4) cl by simp
    moreover have "key (scan s0 (ls @ [x])) = FindStringSubmatch valuesDescriptionRegex l ! 1"
      using ih(5) by (simp add: step)
    moreover have "description (scan s0 (ls @ [x])) = FindStringSubmatch valuesDescriptionRegex l ! 2
        @ concat (map (\<lambda>c. '' '' @ FindStringSubmatch commentContinuationRegex c ! 1) (cs @ [x]))"
      using ih(6) by (simp add: step)
    moreover have "keyToDescriptions (scan s0 (ls @ [x])) = keyToDescriptions (scan s0 pre)"
      using ih(7) by (simp add: step)
    ultimately show ?thesis using ih(2,3) by blast
  qed
qed

lemma stores_append: "stores s (xs @ ys) = stores s xs @ stores (scan s xs) ys"
  by (induction xs arbitrary: s) (simp_all add: scan_Nil scan_Cons)

lemma stores_continue:
  assumes "foundValuesComment s" and "list_all continuation_line cs"
  shows "stores s cs = []"
  using assms
proof (induction cs arbitrary: s)
  case Nil
  show ?case by simp
next
  case (Cons c cs)
  have "store_of s c = None"
    using Cons.prems by (simp add: store_of_def continuation_line_def)
  moreover have "foundValuesComment (loop_body s c)"
    using Cons.prems by (simp add: loop_body_continue)
  ultimately show ?case using Cons.IH [of "loop_body s c"] Cons.prems(2) by simp
qed

lemma stores_block:
  assumes "\<not> foundValuesComment s" and "starts_description l"
    and "list_all continuation_line cs" and "\<not> continuation_line t"
  shows "stores s (l # cs @ [t]) =
         [(FindStringSubmatch valuesDescriptionRegex l ! 1,
           \<lparr> Description = FindStringSubmatch valuesDescriptionRegex l ! 2
                @ concat (map (\<lambda>c. '' '' @ FindStringSubmatch commentContinuationRegex c ! 1) cs),
             Default = default_of t \<rparr>)]"
proof -
  define s1 where "s1 = loop_body s l"
  have s1: "s1 = s\<lparr> foundValuesComment := True,
            key := FindStringSubmatch valuesDescriptionRegex l ! 1,
            description := FindStringSubmatch valuesDescriptionRegex l ! 2 \<rparr>"
    unfolding s1_def using assms(1,2) by (rule loop_body_searching_start)
  have f1: "foundValuesComment s1" by (simp add: s1)
  define s2 where "s2 = scan s1 cs"
  have s2: "s2 = s1\<lparr> description := description s1
              @ concat (map (\<lambda>c. '' '' @ FindStringSubmatch commentContinuationRegex c ! 1) cs) \<rparr>"
    unfolding s2_def using f1 assms(3) by (rule scan_continue)
  have a: "store_of s l = None" using assms(1) by (simp add: store_of_def)
  have b: "stores s1 cs = []" using f1 assms(3) by (rule stores_continue)
  have c: "store_of s2 t = Some (key s2, \<lparr> Description = description s2, Default = default_of t \<rparr>)"
    using assms(4) by (auto simp add: store_of_def s2 s1 continuation_line_def default_of_def Let_def)
  have "stores s (l # cs @ [t]) = stores s1 cs @ stores s2 [t]"
    using a by (simp add: stores_append s1_def s2_def)
  then show ?thesis using b c by (simp add: s2 s1)
qed

lemma returned_map_is_last_store:
  "parseLines ls k =
     (case filter (\<lambda>kr. fst kr = k) (stores init_state ls) of
        [] \<Rightarrow> None
      | krs \<Rightarrow> Some (snd (last krs)))"
  by (simp add: parseLines_def keyToDescriptions_scan init_state_def map_of_rev_last)

lemma scan_keeps_other_key:
  assumes "list_all (\<lambda>l. starts_description l
                  \<longrightarrow> FindStringSubmatch valuesDescriptionRegex l ! 1 \<noteq> k) post"
    and "\<not> foundValuesComment s \<or> key s \<noteq> k"
  shows "keyToDescriptions (scan s post) k = keyToDescriptions s k"
  using assms
proof (induction post arbitrary: s)
  case Nil
  show ?case by (simp add: scan_Nil)
next
  case (Cons l post)
  have rest: "list_all (\<lambda>l. starts_description l
                  \<longrightarrow> FindStringSubmatch valuesDescriptionRegex l ! 1 \<noteq> k) post"
    and here: "starts_description l \<longrightarrow> FindStringSubmatch valuesDescriptionRegex l ! 1 \<noteq> k"
    using Cons.prems(1) by simp_all
  have step: "keyToDescriptions (loop_body s l) k = keyToDescriptions s k
              \<and> (\<not> foundValuesComment (loop_body s l) \<or> key (loop_body s l) \<noteq> k)"
  proof (cases "foundValuesComment s")
    case False
    show ?thesis
    proof (cases "starts_description l")
      case True
      then show ?thesis using False here by (simp add: loop_body_searching_start)
    next
      case no: False
      then show ?thesis using False by (simp add: loop_body_searching_skip)
    qed
  next
    case True
    then have other: "key s \<noteq> k" using Cons.prems(2) by simp
    show ?thesis
    proof (cases "continuation_line l")
      case cont: True
      then show ?thesis using True other by (simp add: loop_body_continue)
    next
      case False
      then show ?thesis using True other by (simp add: loop_body_close)
    qed
  qed
  have "keyToDescriptions (scan (loop_body s l) post) k = keyToDescriptions (loop_body s l) k"
    using rest step by (rule Cons.IH [OF _ conjunct2])
  then show ?case using step by (simp add: scan_Cons)
qed

lemma parseChartValuesFileComments_open_error:
  "parseChartValuesFileComments (Inl e) = (Map.empty, Some e)"
  by (simp add: parseChartValuesFileComments_def isErrorInReadingNecessaryFile_def)

lemma parseChartValuesFileComments_opened:
  "parseChartValuesFileComments (Inr f) = (parseLines (scanned f), None)"
  by (simp add: parseChartValuesFileComments_def isErrorInReadingNecessaryFile_def)

lemma last_write_wins_example:
  "parseLines [''# x -- first'', ''x: 1'', ''# y -- other'', ''y: 2'', ''# x -- second'', ''x: 3'']
     ''x'' = Some \<lparr> Description = ''second'', Default = '''' \<rparr>"
  by code_simp

lemma trailing_accumulation_example:
  "parseLines [''# a -- x'', ''a: 1'', ''# b -- y'', ''# more text''] ''b'' = None
   \<and> parseLines [''# a -- x'', ''a: 1'', ''# b -- y'', ''# more text''] ''a''
       = Some \<lparr> Description = ''x'', Default = '''' \<rparr>"
  by code_simp

section \<open>The claims of the spec\<close>

subsection \<open>C1: a description-shaped line while a key is pending\<close>

text \<open>
  Claim C1, as the code has it. The continuation pattern matches every comment line,
  also one of the description-start shape. While a key is pending, such a line (one
  that is not of the default shape as well) is a continuation: the text after the
  comment marker, key and delimiter included, is appended to the pending description
  after one space, nothing is written to the map and the key stays pending.
\<close>

theorem description_shaped_line_continues:
  assumes "foundValuesComment s"
    and "list_all (in_class Space) ws"
    and "list_all (in_class AnyCharNotNL) k" and "list_all (in_class AnyCharNotNL) t"
    and "\<not> prefix ''@default -- '' (k @ '' -- '' @ t)"
  shows "loop_body s (ws @ ''# '' @ k @ '' -- '' @ t) =
         s\<lparr> description := description s @ '' '' @ k @ '' -- '' @ t \<rparr>"
proof -
  have c: "list_all (in_class AnyCharNotNL) (k @ '' -- '' @ t)"
    using assms(3,4) by simp
  have "FindStringSubmatch defaultValueRegex (ws @ ''# '' @ k @ '' -- '' @ t) = []"
    using assms(2,5) by (rule FSM_default_not_shape)
  moreover have "FindStringSubmatch commentContinuationRegex (ws @ ''# '' @ k @ '' -- '' @ t)
      = [ws @ ''# '' @ k @ '' -- '' @ t, k @ '' -- '' @ t]"
    using assms(2) c by (rule FSM_continuation_shape)
  ultimately show ?thesis using assms(1) by (simp add: loop_body_def)
qed

theorem description_shaped_line_continues_witness:
  "loop_body \<lparr> description = ''x'', key = ''a'', keyToDescriptions = Map.empty,
               foundValuesComment = True \<rparr> ('''' @ ''# '' @ ''b'' @ '' -- '' @ ''y'')
   = \<lparr> description = ''x b -- y'', key = ''a'', keyToDescriptions = Map.empty,
       foundValuesComment = True \<rparr>"
proof -
  have a: "foundValuesComment \<lparr> description = ''x'', key = ''a'',
      keyToDescriptions = Map.empty, foundValuesComment = True \<rparr>" by simp
  have b: "list_all (in_class Space) ''''" by simp
  have c: "list_all (in_class AnyCharNotNL) ''b''" by simp
  have d: "list_all (in_class AnyCharNotNL) ''y''" by simp
  have e: "\<not> prefix ''@default -- '' (''b'' @ '' -- '' @ ''y'')" by simp
  show ?thesis using description_shaped_line_continues [OF a b c d e] by simp
qed

text \<open>
  Claim C1 as the spec words it says that such a line closes the pending
  record and is not appended. On the lines below the second line leaves the key
  \<open>a\<close> pending, with its own text appended, and no record for \<open>a\<close> is written
  until the third line closes it.
\<close>

theorem description_shaped_line_finalizes_counterexample:
  "foundValuesComment (scan init_state [''# a -- x''])
   \<and> foundValuesComment (scan init_state [''# a -- x'', ''# b -- y''])
   \<and> description (scan init_state [''# a -- x'', ''# b -- y'']) = ''x b -- y''
   \<and> keyToDescriptions (scan init_state [''# a -- x'', ''# b -- y'']) ''a'' = None
   \<and> parseLines [''# a -- x'', ''# b -- y'', ''a: 1''] ''a''
       = Some \<lparr> Description = ''x b -- y'', Default = '''' \<rparr>"
  by code_simp

subsection \<open>C2: the key captured by the first pattern\<close>

text \<open>
  Claim C2, as the code has it. Both groups of the first pattern are greedy. On a
  line of the description-start shape read in searching mode the key is the text up
  to the last occurrence of the delimiter, and the description is what follows that
  occurrence: when no occurrence of the delimiter begins after the one that follows
  \<open>k\<close>, the key is \<open>k\<close> and the description is \<open>t\<close>.
\<close>

theorem key_runs_to_last_delimiter:
  assumes "\<not> foundValuesComment s"
    and "list_all (in_class Space) ws"
    and "list_all (in_class AnyCharNotNL) k" and "list_all (in_class AnyCharNotNL) t"
    and "\<not> sublist '' -- '' (''-- '' @ t)"
  shows "loop_body s (ws @ ''# '' @ k @ '' -- '' @ t) =
         s\<lparr> foundValuesComment := True, key := k, description := t \<rparr>"
proof -
  have "FindStringSubmatch valuesDescriptionRegex (ws @ ''# '' @ k @ '' -- '' @ t)
         = [ws @ ''# '' @ k @ '' -- '' @ t, k, t]"
    using assms(2-5) by (rule FSM_values)
  then show ?thesis using assms(1) by (simp add: loop_body_def)
qed

theorem key_runs_to_last_delimiter_witness:
  "loop_body init_state ('' '' @ ''# '' @ ''a -- b'' @ '' -- '' @ ''c'')
   = \<lparr> description = ''c'', key = ''a -- b'', keyToDescriptions = Map.empty,
       foundValuesComment = True \<rparr>"
proof -
  have a: "\<not> foundValuesComment init_state" by (simp add: init_state_def)
  have b: "list_all (in_class Space) '' ''" by simp
  have c: "list_all (in_class AnyCharNotNL) ''a -- b''" by simp
  have d: "list_all (in_class AnyCharNotNL) ''c''" by simp
  have e: "\<not> sublist '' -- '' (''-- '' @ ''c'')" by code_simp
  show ?thesis using key_runs_to_last_delimiter [OF a b c d e] by (simp add: init_state_def)
qed

text \<open>
  Claim C2 as the spec words it takes the key up to the first delimiter. On
  the line of the claim the key is \<open>a -- b\<close> and the description is \<open>c\<close>.
\<close>

theorem key_is_shortest_run_counterexample:
  "key (loop_body init_state ''# a -- b -- c'') = ''a -- b''
   \<and> description (loop_body init_state ''# a -- b -- c'') = ''c''
   \<and> key (loop_body init_state ''# a -- b -- c'') \<noteq> ''a''
   \<and> description (loop_body init_state ''# a -- b -- c'') \<noteq> ''b -- c''"
  by code_simp

subsection \<open>C3: input that ends while a key is pending\<close>

text \<open>
  Claim C3. When the run ends with a key pending, the input is some lines that end
  in searching mode, then the description-start line of the pending key, then
  continuation lines only; and the returned map is the map of the lines before that
  description-start line. The pending key and its description leave no trace in it.
\<close>

theorem trailing_accumulation_is_dropped:
  assumes "foundValuesComment (scan init_state ls)"
  shows "\<exists>pre l cs. ls = pre @ l # cs
           \<and> \<not> foundValuesComment (scan init_state pre)
           \<and> starts_description l
           \<and> list_all continuation_line cs
           \<and> key (scan init_state ls) = FindStringSubmatch valuesDescriptionRegex l ! 1
           \<and> parseLines ls = parseLines pre"
proof -
  have "\<not> foundValuesComment init_state" by (simp add: init_state_def)
  then show ?thesis using pending_decomposition [OF assms] unfolding parseLines_def by blast
qed

theorem trailing_accumulation_is_dropped_witness:
  "foundValuesComment (scan init_state [''# a -- x'', ''a: 1'', ''# b -- y'', ''# more text''])
   \<and> (\<exists>pre l cs. [''# a -- x'', ''a: 1'', ''# b -- y'', ''# more text''] = pre @ l # cs
           \<and> \<not> foundValuesComment (scan init_state pre)
           \<and> starts_description l
           \<and> list_all continuation_line cs
           \<and> key (scan init_state [''# a -- x'', ''a: 1'', ''# b -- y'', ''# more text''])
               = FindStringSubmatch valuesDescriptionRegex l ! 1
           \<and> parseLines [''# a -- x'', ''a: 1'', ''# b -- y'', ''# more text''] = parseLines pre)"
proof -
  have a: "foundValuesComment (scan init_state [''# a -- x'', ''a: 1'', ''# b -- y'', ''# more text''])"
    by code_simp
  show ?thesis using a trailing_accumulation_is_dropped [OF a] by blast
qed

subsection \<open>C4: a default line while a key is pending\<close>

text \<open>
  Claim C4. While a key is pending, a line of the default shape closes the record
  of the pending key with the pending description and the text of the line as the
  default, and the scanner returns to searching; the description is left as it was.
\<close>

theorem default_line_closes_record:
  assumes "foundValuesComment s"
    and "list_all (in_class Space) ws" and "list_all (in_class AnyCharNotNL) t"
  shows "loop_body s (ws @ ''# @default -- '' @ t) =
         s\<lparr> keyToDescriptions := (keyToDescriptions s)
                (key s \<mapsto> \<lparr> Description = description s, Default = t \<rparr>),
            foundValuesComment := False \<rparr>"
proof -
  have "FindStringSubmatch defaultValueRegex (ws @ ''# @default -- '' @ t)
         = [ws @ ''# @default -- '' @ t, t]"
    using assms(2,3) by (rule FSM_default_shape)
  then show ?thesis using assms(1) by (simp add: loop_body_def)
qed

theorem default_line_closes_record_witness:
  "loop_body \<lparr> description = ''The image tag to use'', key = ''image.tag'',
               keyToDescriptions = Map.empty, foundValuesComment = True \<rparr>
             (''  '' @ ''# @default -- '' @ ''\"latest\"'')
   = \<lparr> description = ''The image tag to use'', key = ''image.tag'',
       keyToDescriptions = [''image.tag'' \<mapsto>
          \<lparr> Description = ''The image tag to use'', Default = ''\"latest\"'' \<rparr>],
       foundValuesComment = False \<rparr>"
proof -
  have a: "list_all (in_class Space) ''  ''" by simp
  have b: "list_all (in_class AnyCharNotNL) ''\"latest\"''" by simp
  show ?thesis
    using default_line_closes_record [OF _ a b, of "\<lparr> description = ''The image tag to use'',
        key = ''image.tag'', keyToDescriptions = Map.empty, foundValuesComment = True \<rparr>"]
    by simp
qed

subsection \<open>C5: the description of a closed key\<close>

text \<open>
  Claim C5. A key that is started by a description line, continued by the comment
  lines \<open>cs\<close> and closed by the line \<open>t\<close> is recorded with the text captured by
  the first pattern followed by the text captured from each continuation line, in
  line order, each preceded by one space. The instance below is the three-line input
  of the spec.
\<close>

theorem description_joined_in_line_order:
  assumes "\<not> foundValuesComment s" and "starts_description l"
    and "list_all continuation_line cs" and "\<not> continuation_line t"
  shows "keyToDescriptions (scan s (l # cs @ [t])) =
           (keyToDescriptions s)
             (FindStringSubmatch valuesDescriptionRegex l ! 1 \<mapsto>
                \<lparr> Description = FindStringSubmatch valuesDescriptionRegex l ! 2
                     @ concat (map (\<lambda>c. '' '' @ FindStringSubmatch commentContinuationRegex c ! 1) cs),
                  Default = default_of t \<rparr>)"
  using assms by (simp add: scan_block)

theorem description_joined_in_line_order_witness:
  "parseLines [''# foo -- This is'', ''# a description'', ''foo: bar'']
     = [''foo'' \<mapsto> \<lparr> Description = ''This is a description'', Default = '''' \<rparr>]"
proof -
  have a: "\<not> foundValuesComment init_state" by (simp add: init_state_def)
  have b: "starts_description ''# foo -- This is''" by code_simp
  have c: "list_all continuation_line [''# a description'']" by code_simp
  have d: "\<not> continuation_line ''foo: bar''" by code_simp
  have e: "FindStringSubmatch valuesDescriptionRegex ''# foo -- This is'' ! 1 = ''foo''"
    by code_simp
  have f: "FindStringSubmatch valuesDescriptionRegex ''# foo -- This is'' ! 2 = ''This is''"
    by code_simp
  have g: "FindStringSubmatch commentContinuationRegex ''# a description'' ! 1 = ''a description''"
    by code_simp
  have h: "default_of ''foo: bar'' = ''''" by code_simp
  have i: "keyToDescriptions init_state = Map.empty" by (simp add: init_state_def)
  show ?thesis
    using description_joined_in_line_order [OF a b c d]
    unfolding parseLines_def e f h i by (simp add: g [unfolded One_nat_def])
qed

subsection \<open>C6: a key documented more than once\<close>

text \<open>
  Claim C6. Let the input hold two closed occurrences of one key: a description-start
  line read in searching mode, its continuation lines and a closing line, and later
  a second such block whose description-start line captures the same key; and let no
  description-start line after the second block capture that key. After the first
  block the map holds the record of the first block under the key; at the end of the
  input it holds, under the key, the record of the second block and not the first.
  The map has one record a key, so that record is the only one.
\<close>

theorem later_occurrence_overwrites_earlier:
  assumes pre: "\<not> foundValuesComment (scan init_state pre)"
    and first: "starts_description l1" "list_all continuation_line cs1" "\<not> continuation_line t1"
    and mid: "\<not> foundValuesComment (scan init_state (pre @ (l1 # cs1 @ [t1]) @ mid))"
    and second: "starts_description l2" "list_all continuation_line cs2" "\<not> continuation_line t2"
    and same: "FindStringSubmatch valuesDescriptionRegex l2 ! 1
               = FindStringSubmatch valuesDescriptionRegex l1 ! 1"
    and post: "list_all (\<lambda>l. starts_description l
                  \<longrightarrow> FindStringSubmatch valuesDescriptionRegex l ! 1
                      \<noteq> FindStringSubmatch valuesDescriptionRegex l1 ! 1) post"
  shows "parseLines (pre @ (l1 # cs1 @ [t1])) (FindStringSubmatch valuesDescriptionRegex l1 ! 1)
           = Some \<lparr> Description = FindStringSubmatch valuesDescriptionRegex l1 ! 2
                      @ concat (map (\<lambda>c. '' '' @ FindStringSubmatch commentContinuationRegex c ! 1) cs1),
                    Default = default_of t1 \<rparr>
         \<and> parseLines (pre @ (l1 # cs1 @ [t1]) @ mid @ (l2 # cs2 @ [t2]) @ post)
             (FindStringSubmatch valuesDescriptionRegex l1 ! 1)
           = Some \<lparr> Description = FindStringSubmatch valuesDescriptionRegex l2 ! 2
                      @ concat (map (\<lambda>c. '' '' @ FindStringSubmatch commentContinuationRegex c ! 1) cs2),
                    Default = default_of t2 \<rparr>"
proof -
  define k where "k = FindStringSubmatch valuesDescriptionRegex l1 ! 1"
  define s3 where "s3 = scan init_state (pre @ (l1 # cs1 @ [t1]) @ mid)"
  define s4 where "s4 = scan s3 (l2 # cs2 @ [t2])"
  have one: "keyToDescriptions (scan init_state (pre @ (l1 # cs1 @ [t1]))) k
           = Some \<lparr> Description = FindStringSubmatch valuesDescriptionRegex l1 ! 2
                      @ concat (map (\<lambda>c. '' '' @ FindStringSubmatch commentContinuationRegex c ! 1) cs1),
                    Default = default_of t1 \<rparr>"
    using scan_block [OF pre first] by (simp add: scan_append k_def)
  have f3: "\<not> foundValuesComment s3" using mid by (simp add: s3_def)
  have s4: "s4 = s3\<lparr> foundValuesComment := False,
            key := FindStringSubmatch valuesDescriptionRegex l2 ! 1,
            description := FindStringSubmatch valuesDescriptionRegex l2 ! 2
              @ concat (map (\<lambda>c. '' '' @ FindStringSubmatch commentContinuationRegex c ! 1) cs2),
            keyToDescriptions := (keyToDescriptions s3)
              (FindStringSubmatch valuesDescriptionRegex l2 ! 1 \<mapsto>
                 \<lparr> Description = FindStringSubmatch valuesDescriptionRegex l2 ! 2
                      @ concat (map (\<lambda>c. '' '' @ FindStringSubmatch commentContinuationRegex c ! 1) cs2),
                   Default = default_of t2 \<rparr>) \<rparr>"
    unfolding s4_def using f3 second by (rule scan_block)
  have f4: "\<not> foundValuesComment s4 \<or> key s4 \<noteq> k" by (simp add: s4)
  have "keyToDescriptions (scan s4 post) k = keyToDescriptions s4 k"
    using post f4 unfolding k_def [symmetric] by (rule scan_keeps_other_key)
  also have "\<dots> = Some \<lparr> Description = FindStringSubmatch valuesDescriptionRegex l2 ! 2
                      @ concat (map (\<lambda>c. '' '' @ FindStringSubmatch commentContinuationRegex c ! 1) cs2),
                    Default = default_of t2 \<rparr>"
    using same by (simp add: s4 k_def)
  finally have two: "keyToDescriptions (scan s4 post) k
       = Some \<lparr> Description = FindStringSubmatch valuesDescriptionRegex l2 ! 2
                      @ concat (map (\<lambda>c. '' '' @ FindStringSubmatch commentContinuationRegex c ! 1) cs2),
                    Default = default_of t2 \<rparr>" .
  have whole: "scan init_state (pre @ (l1 # cs1 @ [t1]) @ mid @ (l2 # cs2 @ [t2]) @ post)
        = scan s4 post"
    unfolding s4_def s3_def by (simp only: scan_append append_assoc)
  show ?thesis
    unfolding parseLines_def whole k_def [symmetric] using one two by simp
qed

theorem later_occurrence_overwrites_earlier_witness:
  "parseLines ([] @ (''# x -- first'' # [''# line''] @ [''x: 1''])) ''x''
     = Some \<lparr> Description = ''first line'', Default = '''' \<rparr>
   \<and> parseLines ([] @ (''# x -- first'' # [''# line''] @ [''x: 1'']) @ [''# y -- other'', ''y: 2'']
                 @ (''# x -- second'' # [] @ [''# @default -- 7'']) @ [''# z -- last'', ''z: 3''])
       ''x'' = Some \<lparr> Description = ''second'', Default = ''7'' \<rparr>"
proof -
  have a: "\<not> foundValuesComment (scan init_state [])" by code_simp
  have b: "starts_description ''# x -- first''" by code_simp
  have c: "list_all continuation_line [''# line'']" by code_simp
  have d: "\<not> continuation_line ''x: 1''" by code_simp
  have e: "\<not> foundValuesComment (scan init_state
             ([] @ (''# x -- first'' # [''# line''] @ [''x: 1'']) @ [''# y -- other'', ''y: 2'']))"
    by code_simp
  have f: "starts_description ''# x -- second''" by code_simp
  have g: "list_all continuation_line []" by simp
  have h: "\<not> continuation_line ''# @default -- 7''" by code_simp
  have i: "FindStringSubmatch valuesDescriptionRegex ''# x -- second'' ! 1
           = FindStringSubmatch valuesDescriptionRegex ''# x -- first'' ! 1" by code_simp
  have j: "list_all (\<lambda>l. starts_description l
                  \<longrightarrow> FindStringSubmatch valuesDescriptionRegex l ! 1
                      \<noteq> FindStringSubmatch valuesDescriptionRegex ''# x -- first'' ! 1)
             [''# z -- last'', ''z: 3'']" by code_simp
  have k1: "FindStringSubmatch valuesDescriptionRegex ''# x -- first'' ! 1 = ''x''" by code_simp
  have k2: "FindStringSubmatch valuesDescriptionRegex ''# x -- first'' ! 2 = ''first''" by code_simp
  have k3: "FindStringSubmatch valuesDescriptionRegex ''# x -- second'' ! 2 = ''second''" by code_simp
  have k4: "FindStringSubmatch commentContinuationRegex ''# line'' ! 1 = ''line''" by code_simp
  have k5: "default_of ''x: 1'' = ''''" by code_simp
  have k6: "default_of ''# @default -- 7'' = ''7''" by code_simp
  show ?thesis
    using later_occurrence_overwrites_earlier [OF a b c d e f g h i j]
    unfolding k1 k2 k3 k5 k6 by (simp add: k4 [unfolded One_nat_def])
qed

subsection \<open>C7: a failure while reading lines\<close>

text \<open>
  Claim C7 on a file that opens and whose scan stops with an error after two lines:
  the function returns no error, and the map built from the two lines.
\<close>

theorem scan_error_returns_partial_map:
  "snd (parseChartValuesFileComments
          (Inr \<lparr> scanned = [''# a -- x'', ''a: 1''], scanErr = Some ErrTooLong \<rparr>)) = None
   \<and> fst (parseChartValuesFileComments
          (Inr \<lparr> scanned = [''# a -- x'', ''a: 1''], scanErr = Some ErrTooLong \<rparr>)) ''a''
       = Some \<lparr> Description = ''x'', Default = '''' \<rparr>"
  by code_simp

subsection \<open>C8: input without a description-start line\<close>

text \<open>
  Claim C8. When no line of the input matches the description-start pattern, the
  scanner never leaves the searching mode and the returned map is empty.
\<close>

theorem no_description_start_gives_empty_map:
  assumes "list_all (\<lambda>l. \<not> starts_description l) ls"
  shows "parseLines ls = Map.empty"
proof -
  have "\<not> foundValuesComment init_state" by (simp add: init_state_def)
  then have "scan init_state ls = init_state" using assms by (rule scan_searching_skip)
  then show ?thesis by (simp add: parseLines_def init_state_def)
qed

theorem no_description_start_gives_empty_map_witness:
  "parseLines [''replicaCount: 3'', ''# only a comment'', '''', ''#key -- text''] = Map.empty"
proof -
  have "list_all (\<lambda>l. \<not> starts_description l)
          [''replicaCount: 3'', ''# only a comment'', '''', ''#key -- text'']"
    by code_simp
  then show ?thesis by (rule no_description_start_gives_empty_map)
qed

subsection \<open>C9: a default line in searching mode\<close>

text \<open>
  Claim C9, as the code has it. In searching mode a line of the default shape matches
  the first pattern. When no further occurrence of the delimiter begins after the one
  that follows \<open>@default\<close>, the key is \<open>@default\<close> and the description is the text of
  the line; and once that key is closed, after any continuation lines, the map has an
  entry under \<open>@default\<close>.
\<close>

theorem default_line_starts_default_key:
  assumes "\<not> foundValuesComment s"
    and "list_all (in_class Space) ws" and "list_all (in_class AnyCharNotNL) t"
    and "\<not> sublist '' -- '' (''-- '' @ t)"
    and "list_all continuation_line cs" and "\<not> continuation_line e"
  shows "loop_body s (ws @ ''# @default -- '' @ t) =
           s\<lparr> foundValuesComment := True, key := ''@default'', description := t \<rparr>
         \<and> keyToDescriptions (scan s ((ws @ ''# @default -- '' @ t) # cs @ [e])) ''@default'' =
             Some \<lparr> Description = t
                      @ concat (map (\<lambda>c. '' '' @ FindStringSubmatch commentContinuationRegex c ! 1) cs),
                    Default = default_of e \<rparr>"
proof -
  define l where "l = ws @ ''# @default -- '' @ t"
  have l: "l = ws @ ''# '' @ ''@default'' @ '' -- '' @ t" by (simp add: l_def)
  have m: "FindStringSubmatch valuesDescriptionRegex l = [l, ''@default'', t]"
    unfolding l using assms(2) _ assms(3,4) by (rule FSM_values) simp
  then have sd: "starts_description l" by (simp add: starts_description_def)
  have one: "loop_body s l = s\<lparr> foundValuesComment := True, key := ''@default'', description := t \<rparr>"
    using assms(1) m by (simp add: loop_body_def)
  have two: "keyToDescriptions (scan s (l # cs @ [e])) ''@default'' =
             Some \<lparr> Description = t
                      @ concat (map (\<lambda>c. '' '' @ FindStringSubmatch commentContinuationRegex c ! 1) cs),
                    Default = default_of e \<rparr>"
    using scan_block [OF assms(1) sd assms(5,6)] by (simp add: m)
  show ?thesis using one two by (simp add: l_def)
qed

theorem default_line_starts_default_key_witness:
  "loop_body init_state ('''' @ ''# @default -- '' @ ''nil'')
     = \<lparr> description = ''nil'', key = ''@default'', keyToDescriptions = Map.empty,
         foundValuesComment = True \<rparr>
   \<and> keyToDescriptions (scan init_state (('''' @ ''# @default -- '' @ ''nil'') # [] @ [''x: 1'']))
       ''@default'' = Some \<lparr> Description = ''nil'', Default = '''' \<rparr>"
proof -
  have a: "\<not> foundValuesComment init_state" by (simp add: init_state_def)
  have b: "list_all (in_class Space) ''''" by simp
  have c: "list_all (in_class AnyCharNotNL) ''nil''" by simp
  have d: "\<not> sublist '' -- '' (''-- '' @ ''nil'')" by code_simp
  have e: "list_all continuation_line []" by simp
  have f: "\<not> continuation_line ''x: 1''" by code_simp
  have g: "default_of ''x: 1'' = ''''" by code_simp
  show ?thesis using default_line_starts_default_key [OF a b c d e f]
    by (simp add: init_state_def g)
qed

text \<open>
  Claim C9 as the spec words it gives the key \<open>@default\<close> for every text.
  When the text holds the delimiter again, the greedy key runs on to its last
  occurrence.
\<close>

theorem default_line_starts_default_key_counterexample:
  "key (loop_body init_state ''# @default -- a -- b'') = ''@default -- a''
   \<and> description (loop_body init_state ''# @default -- a -- b'') = ''b''
   \<and> key (loop_body init_state ''# @default -- a -- b'') \<noteq> ''@default''
   \<and> description (loop_body init_state ''# @default -- a -- b'') \<noteq> ''a -- b''"
  by code_simp

subsection \<open>C10: a record closed without a default\<close>

text \<open>
  Claim C10. The \<open>Default\<close> field is a string. A line that closes the pending key
  without matching the default pattern stores the empty string there, and leaves the
  scanner in the very state that a default line with empty text would have left.
\<close>

theorem no_default_is_empty_default:
  assumes "foundValuesComment s"
    and "\<not> length (FindStringSubmatch defaultValueRegex t) > 1"
    and "\<not> length (FindStringSubmatch commentContinuationRegex t) > 1"
  shows "keyToDescriptions (loop_body s t) (key s)
           = Some \<lparr> Description = description s, Default = [] \<rparr>
         \<and> loop_body s t = loop_body s ''# @default -- ''"
proof -
  have "FindStringSubmatch defaultValueRegex ([] @ ''# @default -- '' @ [])
         = [[] @ ''# @default -- '' @ [], []]"
    by (rule FSM_default_shape) simp_all
  then have e: "FindStringSubmatch defaultValueRegex ''# @default -- '' = [''# @default -- '', []]"
    by simp
  show ?thesis using assms by (simp add: loop_body_def e)
qed

theorem no_default_is_empty_default_witness:
  "keyToDescriptions
     (loop_body \<lparr> description = ''Number of replicas to deploy'', key = ''replicaCount'',
                  keyToDescriptions = Map.empty, foundValuesComment = True \<rparr>
        ''replicaCount: 3'') ''replicaCount''
     = Some \<lparr> Description = ''Number of replicas to deploy'', Default = [] \<rparr>
   \<and> loop_body \<lparr> description = ''Number of replicas to deploy'', key = ''replicaCount'',
                  keyToDescriptions = Map.empty, foundValuesComment = True \<rparr>
        ''replicaCount: 3''
     = loop_body \<lparr> description = ''Number of replicas to deploy'', key = ''replicaCount'',
                  keyToDescriptions = Map.empty, foundValuesComment = True \<rparr>
        ''# @default -- ''"
proof -
  have a: "\<not> length (FindStringSubmatch defaultValueRegex ''replicaCount: 3'') > 1"
    by code_simp
  have b: "\<not> length (FindStringSubmatch commentContinuationRegex ''replicaCount: 3'') > 1"
    by code_simp
  have c: "foundValuesComment \<lparr> description = ''Number of replicas to deploy'',
        key = ''replicaCount'', keyToDescriptions = Map.empty, foundValuesComment = True \<rparr>"
    by simp
  show ?thesis
    using no_default_is_empty_default [OF c a b, unfolded scan_state.select_convs] .
qed

end
